theory Spec2Isabelle
  imports Complex_Main
begin

section \<open>Python string operations used by storygenerator.py\<close>

text \<open>
  A Python \<open>str\<close> is modelled as a \<open>string\<close>, one \<open>char\<close> per code point, for the
  code points below 256. \<open>isspace\<close> lists the code points of that range that
  \<open>str.split()\<close> and \<open>str.strip()\<close> treat as whitespace: tab, line feed, vertical tab,
  form feed, carriage return, the four separators 0x1C..0x1F, space, NEL (0x85) and
  the no-break space (0xA0).
\<close>

definition isspace :: "char \<Rightarrow> bool" where
  "isspace c = (c \<in> set [CHR 0x09, CHR 0x0A, CHR 0x0B, CHR 0x0C, CHR 0x0D,
                          CHR 0x1C, CHR 0x1D, CHR 0x1E, CHR 0x1F, CHR 0x20,
                          CHR 0x85, CHR 0xA0])"

text \<open>\<open>s.split()\<close>: the maximal runs of non-whitespace characters, in order. The first
  argument of \<open>split_words\<close> is the word being read.\<close>

fun split_words :: "string \<Rightarrow> string \<Rightarrow> string list" where
  "split_words w [] = (if w = [] then [] else [w])"
| "split_words w (c # cs) =
     (if isspace c then (if w = [] then split_words [] cs else w # split_words [] cs)
      else split_words (w @ [c]) cs)"

definition split_ws :: "string \<Rightarrow> string list" where
  "split_ws s = split_words [] s"

text \<open>\<open>s.split(sep)\<close> for a one-character separator: never an empty list.\<close>

fun split_sep :: "char \<Rightarrow> string \<Rightarrow> string list" where
  "split_sep sep [] = [[]]"
| "split_sep sep (c # cs) =
     (if c = sep then [] # split_sep sep cs
      else (case split_sep sep cs of [] \<Rightarrow> [[c]] | l # ls \<Rightarrow> (c # l) # ls))"

text \<open>\<open>s.startswith(p)\<close>.\<close>

fun startswith :: "string \<Rightarrow> string \<Rightarrow> bool" where
  "startswith s [] = True"
| "startswith [] (p # ps) = False"
| "startswith (c # cs) (p # ps) = (c = p \<and> startswith cs ps)"

text \<open>\<open>p in s\<close>.\<close>

fun contains :: "string \<Rightarrow> string \<Rightarrow> bool" where
  "contains [] p = (p = [])"
| "contains (c # cs) p = (startswith (c # cs) p \<or> contains cs p)"

text \<open>\<open>s.strip()\<close>.\<close>

definition strip :: "string \<Rightarrow> string" where
  "strip s = rev (dropWhile isspace (rev (dropWhile isspace s)))"

text \<open>\<open>s.replace(old, new)\<close>: every occurrence of \<open>old\<close>, left to right, without
  overlap. The counter of \<open>replace_from\<close> is the number of characters of a matched
  occurrence still to be skipped. For an empty \<open>old\<close> Python puts \<open>new\<close> before
  every character and at the end.\<close>

fun replace_from :: "string \<Rightarrow> string \<Rightarrow> nat \<Rightarrow> string \<Rightarrow> string" where
  "replace_from old new k [] = []"
| "replace_from old new (Suc k) (c # cs) = replace_from old new k cs"
| "replace_from old new 0 (c # cs) =
     (if startswith (c # cs) old then new @ replace_from old new (length old - 1) cs
      else c # replace_from old new 0 cs)"

definition replace :: "string \<Rightarrow> string \<Rightarrow> string \<Rightarrow> string" where
  "replace s old new =
     (if old = [] then new @ concat (map (\<lambda>c. c # new) s)
      else replace_from old new 0 s)"

text \<open>\<open>sep.join(xs)\<close>.\<close>

fun join :: "string \<Rightarrow> string list \<Rightarrow> string" where
  "join sep [] = []"
| "join sep [x] = x"
| "join sep (x # y # ys) = x @ sep @ join sep (y # ys)"

section \<open>Validation\<close>

text \<open>\<open>_validate_content\<close> (storygenerator.py, lines 57 to 63).\<close>

definition validate_content :: "string \<Rightarrow> bool" where
  "validate_content story =
     (if length (split_ws story) > 500 then False
      else if \<not> contains story ''[Scene'' then False
      else True)"

section \<open>Exceptions\<close>

text \<open>
  The exceptions the code can meet. \<open>KeyError\<close> and \<open>IndexError\<close> are raised by Python
  itself on a missing dictionary key and on a list index out of range;
  \<open>Exception msg\<close> is \<open>raise Exception(msg)\<close>; \<open>Upstream\<close> is any exception of a
  collaborator's that derives from \<open>Exception\<close>; \<open>Interrupt\<close> is one that derives from
  \<open>BaseException\<close> only (\<open>KeyboardInterrupt\<close>, \<open>SystemExit\<close>), which
  \<open>except Exception\<close> does not catch.
\<close>

datatype exn =
    KeyError string
  | IndexError
  | Exception string
  | Upstream string
  | Interrupt string

fun is_Exception :: "exn \<Rightarrow> bool" where
  "is_Exception (Interrupt m) = False"
| "is_Exception e = True"

section \<open>Prompt construction\<close>

text \<open>\<open>_create_story_prompt\<close> (lines 28 to 50).\<close>

definition create_story_prompt :: "string \<Rightarrow> string list \<Rightarrow> string" where
  "create_story_prompt moral_value character_names =
     ''You are a children's story writer. Create a short story for children aged 0-5 years that teaches the moral value of ''
     @ moral_value @ ''.\<newline>''
     @ ''\<newline>''
     @ ''Requirements:\<newline>''
     @ ''\<newline>''
     @ ''- Story should be 150-200 words\<newline>''
     @ ''- Use simple, clear language suitable for young children\<newline>''
     @ ''- Include character names: '' @ join '', '' character_names @ ''\<newline>''
     @ ''- Create 2-3 scenes that can be clearly visualized\<newline>''
     @ ''- Include some dialogue but keep it simple\<newline>''
     @ ''- Add repetitive elements that young children enjoy\<newline>''
     @ ''- End with a clear but gentle moral lesson\<newline>''
     @ ''- Avoid any scary or negative elements\<newline>''
     @ ''- Use descriptive language that can guide illustration\<newline>''
     @ ''\<newline>''
     @ ''Format the story as follows:\<newline>''
     @ ''Title: [Story Title]\<newline>''
     @ ''\<newline>''
     @ ''[Story text with clear paragraph breaks between scenes]\<newline>''
     @ ''\<newline>''
     @ ''Each scene should be marked with [Scene X] at the start.''"

section \<open>The text-generation collaborator\<close>

text \<open>
  \<open>self.model.generate_content(prompt, temperature=...).text\<close> is outside the
  repository. It is a parameter of the model: a function from the number of calls made
  before this one, the prompt and the temperature to the text returned or the
  exception raised. The number of calls made so far is the state that
  \<open>_generate_text\<close> (lines 52 to 55) reads and increments. The temperature is a float
  on which the code does no arithmetic: its type is left open.
\<close>

type_synonym 'f text_model = "nat \<Rightarrow> string \<Rightarrow> 'f \<Rightarrow> exn + string"

definition generate_text :: "'f text_model \<Rightarrow> 'f \<Rightarrow> string \<Rightarrow> nat \<Rightarrow> (exn + string) \<times> nat" where
  "generate_text model temperature prompt calls = (model calls prompt temperature, Suc calls)"

section \<open>Parsing\<close>

text \<open>The dictionary \<open>scenes\<close> keeps insertion order: it is an association list, and
  \<open>scenes[k] = v\<close> overwrites the value of a key that is present, in place, and appends
  a new key at the end.\<close>

fun dict_set :: "(string \<times> string) list \<Rightarrow> string \<Rightarrow> string \<Rightarrow> (string \<times> string) list" where
  "dict_set [] k v = [(k, v)]"
| "dict_set ((k', v') # d) k v =
     (if k' = k then (k, v) # d else (k', v') # dict_set d k v)"

text \<open>Truth value of \<open>current_scene\<close>, which is \<open>None\<close> or a string.\<close>

fun truthy :: "string option \<Rightarrow> bool" where
  "truthy None = False"
| "truthy (Some s) = (s \<noteq> [])"

text \<open>The state of the scan is the three local variables \<open>scenes\<close>,
  \<open>current_scene\<close> and \<open>current_text\<close>. \<open>scan_line\<close> is the body of the loop of
  lines 93 to 100, \<open>scan_lines\<close> the loop.\<close>

type_synonym scan_state = "(string \<times> string) list \<times> string option \<times> string list"

fun scan_line :: "scan_state \<Rightarrow> string \<Rightarrow> scan_state" where
  "scan_line (scenes, current_scene, current_text) line =
     (if startswith (strip line) ''[Scene'' then
        ((case current_scene of
            None \<Rightarrow> scenes
          | Some k \<Rightarrow> if k \<noteq> [] then dict_set scenes k (strip (join ''\<newline>'' current_text))
                      else scenes),
         Some (strip line), [])
      else if strip line \<noteq> [] \<and> truthy current_scene then
        (scenes, current_scene, current_text @ [line])
      else (scenes, current_scene, current_text))"

definition scan_lines :: "scan_state \<Rightarrow> string list \<Rightarrow> scan_state" where
  "scan_lines st lines = foldl scan_line st lines"

record story =
  title :: string
  scenes :: "(string \<times> string) list"
  full_text :: string

text \<open>Lines 87 to 105 of \<open>generate_story\<close>: the parse of a validated text.
  \<open>lines[0]\<close> raises IndexError on an empty list.\<close>

definition parse_story :: "string \<Rightarrow> exn + story" where
  "parse_story story =
     (case split_sep CHR ''\<newline>'' story of
        [] \<Rightarrow> Inl IndexError
      | first # rest \<Rightarrow>
          (case scan_lines ([], None, []) rest of
             (scenes', current_scene, current_text) \<Rightarrow>
               Inr \<lparr>title = strip (replace first ''Title:'' []),
                    scenes = (case current_scene of
                                None \<Rightarrow> scenes'
                              | Some k \<Rightarrow>
                                  if k \<noteq> [] \<and> current_text \<noteq> []
                                  then dict_set scenes' k
                                         (strip (join ''\<newline>'' current_text))
                                  else scenes'),
                    full_text = story\<rparr>))"

section \<open>The retry loop\<close>

text \<open>
  \<open>generate_story\<close> (lines 65 to 108). \<open>attempts\<close> is the loop
  \<open>for attempt in range(max_attempts)\<close> with its \<open>try\<close>: the first number is the
  count of iterations left. An exception that derives from \<open>Exception\<close> is caught and
  the loop goes on; any other one leaves the function. Falling out of the loop raises
  \<open>Exception("Failed to generate a valid story")\<close>. The result is paired with the
  number of calls made to the text collaborator.
\<close>

fun attempts :: "'f text_model \<Rightarrow> 'f \<Rightarrow> string \<Rightarrow> string list \<Rightarrow> nat \<Rightarrow> nat
                  \<Rightarrow> (exn + story) \<times> nat" where
  "attempts model temperature moral_value character_names 0 calls =
     (Inl (Exception ''Failed to generate a valid story''), calls)"
| "attempts model temperature moral_value character_names (Suc left) calls =
     (case generate_text model temperature
             (create_story_prompt moral_value character_names) calls of
        (Inl e, calls') \<Rightarrow>
          if is_Exception e
          then attempts model temperature moral_value character_names left calls'
          else (Inl e, calls')
      | (Inr story, calls') \<Rightarrow>
          if validate_content story then
            (case parse_story story of
               Inl e \<Rightarrow>
                 if is_Exception e
                 then attempts model temperature moral_value character_names left calls'
                 else (Inl e, calls')
             | Inr result \<Rightarrow> (Inr result, calls'))
          else attempts model temperature moral_value character_names left calls')"

definition generate_story :: "'f text_model \<Rightarrow> 'f \<Rightarrow> string \<Rightarrow> string list \<Rightarrow> int \<Rightarrow> nat
                              \<Rightarrow> (exn + story) \<times> nat" where
  "generate_story model temperature moral_value character_names max_attempts calls =
     attempts model temperature moral_value character_names (nat max_attempts) calls"

text \<open>The default value of the parameter \<open>max_attempts\<close> (line 69), which the HTTP
  handler of story_generator_app.py never overrides.\<close>

definition default_max_attempts :: int where
  "default_max_attempts = 3"

section \<open>Image generation\<close>

record input_data =
  prompt :: string
  negprompt :: string
  samples :: int
  steps :: int
  aspect_ratio :: string
  guidance_scale :: rat
  seed :: int

text \<open>
  \<open>self.monster_client.generate(model, input_data)\<close> is outside the repository: a
  parameter, as the text collaborator is. Its result is a dictionary from which the
  code reads the list under the key \<open>output\<close>.
\<close>

type_synonym image_client = "nat \<Rightarrow> string \<Rightarrow> input_data \<Rightarrow> exn + (string \<rightharpoonup> string list)"

text \<open>\<open>self.monster_model\<close>, set at line 25 and never assigned again.\<close>

definition monster_model :: string where
  "monster_model = ''txt2img''"

text \<open>The loop of lines 120 and 121; the last argument is \<open>full_prompt\<close>.
  \<open>character_descriptions[character_name]\<close> raises KeyError on a missing key.\<close>

fun character_lines :: "(string \<rightharpoonup> string) \<Rightarrow> string list \<Rightarrow> string \<Rightarrow> exn + string" where
  "character_lines character_descriptions [] full_prompt = Inr full_prompt"
| "character_lines character_descriptions (character_name # names) full_prompt =
     (case character_descriptions character_name of
        None \<Rightarrow> Inl (KeyError character_name)
      | Some d \<Rightarrow>
          character_lines character_descriptions names
            (full_prompt @ character_name @ '': '' @ d @ ''\<newline>''))"

text \<open>Lines 119 to 132 of \<open>generate_scene_image\<close>: the prompt and \<open>input_data\<close>.\<close>

definition scene_input_data :: "string \<Rightarrow> (string \<rightharpoonup> string) \<Rightarrow> string list \<Rightarrow> string \<Rightarrow> string
                                \<Rightarrow> exn + input_data" where
  "scene_input_data scene_description character_descriptions characters_involved
       output_dir scene_name =
     (case character_lines character_descriptions characters_involved [] of
        Inl e \<Rightarrow> Inl e
      | Inr full_prompt \<Rightarrow>
          Inr \<lparr>prompt = full_prompt @ ''Scene: '' @ scene_description @ ''.'',
               negprompt = ''deformed, bad anatomy, disfigured, poorly drawn face'',
               samples = 1,
               steps = 50,
               aspect_ratio = ''square'',
               guidance_scale = 15 / 2,
               seed = 2414\<rparr>)"

text \<open>\<open>generate_scene_image\<close> (lines 110 to 134), paired with the number of calls made
  to the image collaborator. \<open>result['output'][0]\<close> raises KeyError without the key
  and IndexError on an empty list.\<close>

definition generate_scene_image :: "image_client \<Rightarrow> string \<Rightarrow> (string \<rightharpoonup> string) \<Rightarrow> string list
                                    \<Rightarrow> string \<Rightarrow> string \<Rightarrow> nat \<Rightarrow> (exn + string) \<times> nat" where
  "generate_scene_image monster_client scene_description character_descriptions
       characters_involved output_dir scene_name calls =
     (case scene_input_data scene_description character_descriptions characters_involved
             output_dir scene_name of
        Inl e \<Rightarrow> (Inl e, calls)
      | Inr input \<Rightarrow>
          (case monster_client calls monster_model input of
             Inl e \<Rightarrow> (Inl e, Suc calls)
           | Inr result \<Rightarrow>
               (case result ''output'' of
                  None \<Rightarrow> (Inl (KeyError ''output''), Suc calls)
                | Some [] \<Rightarrow> (Inl IndexError, Suc calls)
                | Some (url # urls) \<Rightarrow> (Inr url, Suc calls))))"

section \<open>Outcomes of an attempt and concrete collaborators\<close>

text \<open>The outcome of a call of the text collaborator that makes the loop go on to the
  next attempt: an exception that \<open>except Exception\<close> catches, or a text that
  \<open>_validate_content\<close> rejects.\<close>

definition discarded :: "exn + string \<Rightarrow> bool" where
  "discarded r = (case r of Inl e \<Rightarrow> is_Exception e | Inr story \<Rightarrow> \<not> validate_content story)"

text \<open>Collaborators for the concrete instances: a text model that raises on the first
  call and returns a text without marker afterwards, one that raises on the first
  call and returns a well-formed story afterwards, and an image client that returns
  one URL.\<close>

definition failing_model :: "unit text_model" where
  "failing_model calls p temperature =
     (if calls = 0 then Inl (Upstream ''timeout'') else Inr ''Title: T'')"

definition second_try_model :: "unit text_model" where
  "second_try_model calls p temperature =
     (if calls = 0 then Inl (Upstream ''timeout'')
      else Inr ''Title: T\<newline>[Scene 1]\<newline>Hi'')"

definition single_url_client :: image_client where
  "single_url_client calls model input = Inr (map_of [(''output'', [''http://image/1''])])"

section \<open>Vocabulary of the statements about the parser\<close>

text \<open>The test of line 94: the trimmed line starts with \<open>[Scene\<close>.\<close>

definition is_marker :: "string \<Rightarrow> bool" where
  "is_marker line = startswith (strip line) ''[Scene''"

text \<open>The title as the specification words it, for comparison with line 88: the first
  line with the prefix \<open>Title:\<close> stripped and the surrounding whitespace trimmed.\<close>

definition title_spec :: "string \<Rightarrow> string" where
  "title_spec first = strip (if startswith first ''Title:'' then drop 6 first else first)"

text \<open>The assignment of line 96 under its guard \<open>if current_scene\<close>.\<close>

definition flush :: "(string \<times> string) list \<Rightarrow> string option \<Rightarrow> string list \<Rightarrow> (string \<times> string) list" where
  "flush sc cur ct =
     (case cur of None \<Rightarrow> sc
      | Some k \<Rightarrow> if k \<noteq> [] then dict_set sc k (strip (join ''\<newline>'' ct)) else sc)"

text \<open>A block is a marker line with the lines that follow it up to the next marker
  line. \<open>scene_of\<close> is the entry the specification gives a block: the trimmed marker
  line, and the non-blank lines of the body joined by line feeds and trimmed.\<close>

definition block_lines :: "string \<times> string list \<Rightarrow> string list" where
  "block_lines b = fst b # snd b"

definition well_formed_block :: "string \<times> string list \<Rightarrow> bool" where
  "well_formed_block b = (is_marker (fst b) \<and> (\<forall>l\<in>set (snd b). \<not> is_marker l))"

definition scene_of :: "string \<times> string list \<Rightarrow> string \<times> string" where
  "scene_of b = (strip (fst b), strip (join ''\<newline>'' (filter (\<lambda>l. strip l \<noteq> []) (snd b))))"

section \<open>Facts about the string operations\<close>

lemma startswith_append: "startswith s p \<longleftrightarrow> (\<exists>b. s = p @ b)"
  by (induction s p rule: startswith.induct) auto

lemma contains_append: "contains s p \<longleftrightarrow> (\<exists>a b. s = a @ p @ b)"
proof (induction s)
  case Nil
  show ?case by auto
next
  case (Cons c cs)
  show ?case
  proof
    assume "contains (c # cs) p"
    then consider "startswith (c # cs) p" | "contains cs p" by auto
    then show "\<exists>a b. c # cs = a @ p @ b"
    proof cases
      case 1
      then obtain b where "c # cs = p @ b" using startswith_append by blast
      then have "c # cs = [] @ p @ b" by simp
      then show ?thesis by blast
    next
      case 2
      then obtain a b where "cs = a @ p @ b" using Cons.IH by blast
      then have "c # cs = (c # a) @ p @ b" by simp
      then show ?thesis by blast
    qed
  next
    assume "\<exists>a b. c # cs = a @ p @ b"
    then obtain a b where ab: "c # cs = a @ p @ b" by blast
    show "contains (c # cs) p"
    proof (cases a)
      case Nil
      with ab have "startswith (c # cs) p" using startswith_append by auto
      then show ?thesis by simp
    next
      case (Cons x a')
      with ab have "cs = a' @ p @ b" by simp
      then have "contains cs p" using Cons.IH by blast
      then show ?thesis by simp
    qed
  qed
qed

lemma split_words_spaced:
  "split_words w (concat (replicate n ''a '') @ r) =
     (if n = 0 then split_words w r
      else (w @ ''a'') # replicate (n - 1) ''a'' @ split_words [] r)"
proof (induction n arbitrary: w)
  case 0
  show ?case by simp
next
  case (Suc n)
  show ?case
    using Suc.IH [of "[]"] by (cases n) (simp_all add: isspace_def)
qed

lemma length_split_ws_spaced:
  "length (split_ws (concat (replicate n ''a '') @ r)) = n + length (split_ws r)"
  unfolding split_ws_def by (cases n) (simp_all add: split_words_spaced del: replicate.simps)

lemma split_ws_marker: "length (split_ws ''[Scene'') = 1"
  by (simp add: split_ws_def isspace_def)

section \<open>Facts about the retry loop and the prompt loop\<close>

lemma split_sep_nonempty: "split_sep sep s \<noteq> []"
  by (induction s) (auto split: list.splits)

lemma parse_story_returns: "\<exists>result. parse_story story = Inr result"
  using split_sep_nonempty [of "CHR ''\<newline>''" story]
  by (auto simp: parse_story_def split: list.splits prod.splits)

lemma attempts_skip:
  "\<forall>i<k. discarded (model (calls + i) (create_story_prompt mv names) t) \<Longrightarrow>
   attempts model t mv names (k + left) calls = attempts model t mv names left (calls + k)"
proof (induction k arbitrary: calls)
  case 0
  show ?case by simp
next
  case (Suc k)
  have first: "discarded (model calls (create_story_prompt mv names) t)"
    using Suc.prems [rule_format, of 0] by simp
  have rest: "\<forall>i<k. discarded (model (Suc calls + i) (create_story_prompt mv names) t)"
    using Suc.prems by auto
  have "attempts model t mv names (Suc k + left) calls
        = attempts model t mv names (k + left) (Suc calls)"
    using first by (auto simp: generate_text_def discarded_def split: sum.splits)
  also have "\<dots> = attempts model t mv names left (Suc calls + k)"
    by (rule Suc.IH [OF rest])
  finally show ?case by simp
qed

lemma character_lines_find:
  "character_lines cd names acc =
     (case find (\<lambda>n. cd n = None) names of
        Some n \<Rightarrow> Inl (KeyError n)
      | None \<Rightarrow> Inr (acc @ concat (map (\<lambda>n. n @ '': '' @ the (cd n) @ ''\<newline>'') names)))"
  by (induction names arbitrary: acc) (auto split: option.splits)

lemma attempts_valid:
  assumes "model calls (create_story_prompt mv names) t = Inr story"
    and "validate_content story"
    and "parse_story story = Inr result"
  shows "attempts model t mv names (Suc left) calls = (Inr result, Suc calls)"
  using assms by (simp add: generate_text_def)

lemma find_None_all: "find P xs = None \<longleftrightarrow> (\<forall>x\<in>set xs. \<not> P x)"
  by (induction xs) auto

lemma find_Some_first:
  "find P xs = Some x \<Longrightarrow> x \<in> set xs \<and> P x \<and> (\<forall>y\<in>set (takeWhile (\<lambda>y. y \<noteq> x) xs). \<not> P y)"
proof (induction xs)
  case Nil
  then show ?case by simp
next
  case (Cons a xs)
  show ?case
  proof (cases "P a")
    case True
    with Cons.prems show ?thesis by simp
  next
    case False
    with Cons.prems have f: "find P xs = Some x" by simp
    from Cons.IH [OF f] False have "a \<noteq> x" by blast
    with Cons.IH [OF f] False show ?thesis by simp
  qed
qed

section \<open>Facts about the scan of the lines\<close>

lemma scan_lines_Nil: "scan_lines st [] = st"
  by (simp add: scan_lines_def)

lemma scan_lines_Cons: "scan_lines st (l # ls) = scan_lines (scan_line st l) ls"
  by (simp add: scan_lines_def)

lemma scan_lines_append: "scan_lines st (a @ b) = scan_lines (scan_lines st a) b"
  by (simp add: scan_lines_def)

lemma marker_nonblank: "is_marker l \<Longrightarrow> strip l \<noteq> []"
  by (auto simp: is_marker_def)

lemma scan_line_marker:
  "is_marker l \<Longrightarrow> scan_line (sc, cur, ct) l = (flush sc cur ct, Some (strip l), [])"
  by (simp add: is_marker_def flush_def scan_line.simps)

lemma scan_line_body:
  "\<not> is_marker l \<Longrightarrow>
   scan_line (sc, cur, ct) l =
     (sc, cur, if strip l \<noteq> [] \<and> truthy cur then ct @ [l] else ct)"
  by (simp add: is_marker_def scan_line.simps)

declare scan_line.simps [simp del]

lemma scan_lines_body:
  "\<forall>l\<in>set ls. \<not> is_marker l \<Longrightarrow>
   scan_lines (sc, cur, ct) ls =
     (sc, cur, if truthy cur then ct @ filter (\<lambda>l. strip l \<noteq> []) ls else ct)"
  by (induction ls arbitrary: ct) (simp_all add: scan_lines_Nil scan_lines_Cons scan_line_body)

lemma dict_set_keys: "fst ` set (dict_set d k v) = insert k (fst ` set d)"
  by (induction d k v rule: dict_set.induct) auto

lemma dict_set_nonempty: "dict_set d k v \<noteq> []"
  by (induction d k v rule: dict_set.induct) auto

lemma dict_set_fresh: "k \<notin> fst ` set d \<Longrightarrow> dict_set d k v = d @ [(k, v)]"
  by (induction d k v rule: dict_set.induct) auto

lemma replace_from_none: "\<not> contains s old \<Longrightarrow> replace_from old new 0 s = s"
  by (induction s) auto

lemma replace_from_skip: "replace_from old new (length xs) (xs @ s) = replace_from old new 0 s"
  by (induction xs) auto

lemma replace_prefix_once:
  assumes "old \<noteq> []" and "\<not> contains t old"
  shows "replace (old @ t) old new = new @ t"
proof -
  obtain c cs where o: "old = c # cs" using assms(1) by (cases old) auto
  have "replace_from old new 0 (old @ t) = new @ replace_from old new (length cs) (cs @ t)"
    using o by (simp add: startswith_append)
  also have "\<dots> = new @ t"
    using assms(2) by (simp add: replace_from_skip replace_from_none)
  finally show ?thesis using assms(1) by (simp add: replace_def)
qed

lemma replace_absent:
  assumes "\<not> contains s old"
  shows "replace s old new = s"
proof -
  have "old \<noteq> []" using assms by (cases s) auto
  then show ?thesis using assms by (simp add: replace_def replace_from_none)
qed

lemma parse_story_title:
  "split_sep CHR ''\<newline>'' raw = first # rest \<Longrightarrow> parse_story raw = Inr res \<Longrightarrow>
   title res = strip (replace first ''Title:'' [])"
  by (auto simp: parse_story_def split: prod.splits)

lemma flush_nonempty: "truthy cur \<Longrightarrow> flush sc cur ct \<noteq> []"
  by (cases cur) (auto simp: flush_def dict_set_nonempty)

lemma scan_lines_open:
  "truthy cur \<Longrightarrow> scan_lines (sc, cur, ct) ls = (sc', cur', ct') \<Longrightarrow>
   truthy cur' \<and> ((sc' \<noteq> [] \<or> ct' \<noteq> []) \<longleftrightarrow>
                   (sc \<noteq> [] \<or> ct \<noteq> [] \<or> (\<exists>l\<in>set ls. strip l \<noteq> [])))"
proof (induction ls arbitrary: sc cur ct)
  case Nil
  then show ?case by (simp add: scan_lines_Nil)
next
  case (Cons l ls)
  show ?case
  proof (cases "is_marker l")
    case True
    have s: "scan_lines (flush sc cur ct, Some (strip l), []) ls = (sc', cur', ct')"
      using Cons.prems(2) True by (simp add: scan_lines_Cons scan_line_marker)
    have t: "truthy (Some (strip l))"
      using True by (simp add: marker_nonblank)
    from Cons.IH [OF t s] flush_nonempty [OF Cons.prems(1)] marker_nonblank [OF True]
    show ?thesis by auto
  next
    case False
    have s: "scan_lines (sc, cur, if strip l \<noteq> [] then ct @ [l] else ct) ls = (sc', cur', ct')"
      using Cons.prems False by (simp add: scan_lines_Cons scan_line_body)
    from Cons.IH [OF Cons.prems(1) s] show ?thesis by auto
  qed
qed

lemma scan_lines_closed:
  "scan_lines ([], None, []) ls = (sc', cur', ct') \<Longrightarrow>
   (sc' \<noteq> [] \<or> (truthy cur' \<and> ct' \<noteq> [])) \<longleftrightarrow>
   (\<exists>a m b. ls = a @ m # b \<and> is_marker m \<and> (\<exists>l\<in>set b. strip l \<noteq> []))"
proof (induction ls)
  case Nil
  then show ?case by (simp add: scan_lines_Nil)
next
  case (Cons l ls)
  show ?case
  proof (cases "is_marker l")
    case True
    have s: "scan_lines ([], Some (strip l), []) ls = (sc', cur', ct')"
      using Cons.prems True by (simp add: scan_lines_Cons scan_line_marker flush_def)
    have t: "truthy (Some (strip l))"
      using True by (simp add: marker_nonblank)
    have o: "truthy cur'" and e: "(sc' \<noteq> [] \<or> ct' \<noteq> []) \<longleftrightarrow> (\<exists>x\<in>set ls. strip x \<noteq> [])"
      using scan_lines_open [OF t s] by auto
    have "(\<exists>a m b. l # ls = a @ m # b \<and> is_marker m \<and> (\<exists>x\<in>set b. strip x \<noteq> []))
          \<longleftrightarrow> (\<exists>x\<in>set ls. strip x \<noteq> [])"
    proof
      assume "\<exists>a m b. l # ls = a @ m # b \<and> is_marker m \<and> (\<exists>x\<in>set b. strip x \<noteq> [])"
      then obtain a m b x where d: "l # ls = a @ m # b" and x: "x \<in> set b" "strip x \<noteq> []"
        by blast
      have "set b \<subseteq> set ls"
        using d by (cases a) auto
      with x show "\<exists>x\<in>set ls. strip x \<noteq> []" by blast
    next
      assume "\<exists>x\<in>set ls. strip x \<noteq> []"
      moreover have "l # ls = [] @ l # ls" by simp
      ultimately show "\<exists>a m b. l # ls = a @ m # b \<and> is_marker m \<and> (\<exists>x\<in>set b. strip x \<noteq> [])"
        using True by blast
    qed
    with o e show ?thesis by simp
  next
    case False
    have s: "scan_lines ([], None, []) ls = (sc', cur', ct')"
      using Cons.prems False by (simp add: scan_lines_Cons scan_line_body)
    have "(\<exists>a m b. l # ls = a @ m # b \<and> is_marker m \<and> (\<exists>x\<in>set b. strip x \<noteq> []))
          \<longleftrightarrow> (\<exists>a m b. ls = a @ m # b \<and> is_marker m \<and> (\<exists>x\<in>set b. strip x \<noteq> []))"
    proof
      assume "\<exists>a m b. l # ls = a @ m # b \<and> is_marker m \<and> (\<exists>x\<in>set b. strip x \<noteq> [])"
      then obtain a m b where d: "l # ls = a @ m # b" and m: "is_marker m"
        and x: "\<exists>x\<in>set b. strip x \<noteq> []"
        by blast
      from d m False obtain a' where "a = l # a'" by (cases a) auto
      with d have "ls = a' @ m # b" by simp
      with m x show "\<exists>a m b. ls = a @ m # b \<and> is_marker m \<and> (\<exists>x\<in>set b. strip x \<noteq> [])"
        by blast
    next
      assume "\<exists>a m b. ls = a @ m # b \<and> is_marker m \<and> (\<exists>x\<in>set b. strip x \<noteq> [])"
      then obtain a m b where d: "ls = a @ m # b" and m: "is_marker m"
        and x: "\<exists>x\<in>set b. strip x \<noteq> []"
        by blast
      from d have "l # ls = (l # a) @ m # b" by simp
      with m x show "\<exists>a m b. l # ls = a @ m # b \<and> is_marker m \<and> (\<exists>x\<in>set b. strip x \<noteq> [])"
        by blast
    qed
    with Cons.IH [OF s] show ?thesis by simp
  qed
qed

lemma parse_story_scenes:
  "split_sep CHR ''\<newline>'' raw = first # rest \<Longrightarrow> parse_story raw = Inr res \<Longrightarrow>
   scan_lines ([], None, []) rest = (sc, cur, ct) \<Longrightarrow>
   scenes res = (if ct \<noteq> [] then flush sc cur ct else sc)"
  by (auto simp: parse_story_def flush_def split: option.splits)

lemma flush_keys: "fst ` set (flush sc cur ct) = fst ` set sc \<union> {k. cur = Some k \<and> k \<noteq> []}"
  by (cases cur) (auto simp: flush_def dict_set_keys)

lemma scan_lines_keys:
  "scan_lines (sc, cur, ct) ls = (sc', cur', ct') \<Longrightarrow>
   fst ` set sc' \<union> {k. cur' = Some k \<and> k \<noteq> []}
   = fst ` set sc \<union> {k. cur = Some k \<and> k \<noteq> []} \<union> strip ` {l \<in> set ls. is_marker l}"
proof (induction ls arbitrary: sc cur ct)
  case Nil
  then show ?case by (simp add: scan_lines_Nil)
next
  case (Cons l ls)
  show ?case
  proof (cases "is_marker l")
    case True
    have s: "scan_lines (flush sc cur ct, Some (strip l), []) ls = (sc', cur', ct')"
      using Cons.prems True by (simp add: scan_lines_Cons scan_line_marker)
    from Cons.IH [OF s] True marker_nonblank [OF True] show ?thesis
      by (auto simp: flush_keys)
  next
    case False
    have s: "scan_lines (sc, cur, if strip l \<noteq> [] \<and> truthy cur then ct @ [l] else ct) ls
             = (sc', cur', ct')"
      using Cons.prems False by (simp add: scan_lines_Cons scan_line_body)
    from Cons.IH [OF s] False show ?thesis by auto
  qed
qed

lemma blank_not_marker: "strip l = [] \<Longrightarrow> \<not> is_marker l"
  using marker_nonblank by blast

lemma scan_lines_blank:
  assumes "\<forall>l\<in>set ls. strip l = []"
  shows "scan_lines (sc, cur, ct) ls = (sc, cur, ct)"
proof -
  have n: "\<forall>l\<in>set ls. \<not> is_marker l"
    using assms blank_not_marker by blast
  have "filter (\<lambda>l. strip l \<noteq> []) ls = []"
    using assms by (simp add: filter_empty_conv)
  then show ?thesis
    by (simp add: scan_lines_body [OF n])
qed

lemma scan_block:
  assumes "well_formed_block b"
  shows "scan_lines (sc, cur, ct) (block_lines b)
         = (flush sc cur ct, Some (strip (fst b)), filter (\<lambda>l. strip l \<noteq> []) (snd b))"
proof -
  have m: "is_marker (fst b)" and n: "\<forall>l\<in>set (snd b). \<not> is_marker l"
    using assms by (simp_all add: well_formed_block_def)
  have "truthy (Some (strip (fst b)))"
    using marker_nonblank [OF m] by simp
  then show ?thesis
    by (simp add: block_lines_def scan_lines_Cons scan_line_marker [OF m]
        scan_lines_body [OF n])
qed

lemma scan_blocks:
  "bs \<noteq> [] \<Longrightarrow> \<forall>b\<in>set bs. well_formed_block b \<Longrightarrow> distinct (map (\<lambda>b. strip (fst b)) bs) \<Longrightarrow>
   scan_lines ([], None, []) (concat (map block_lines bs))
   = (map scene_of (butlast bs), Some (strip (fst (last bs))),
      filter (\<lambda>l. strip l \<noteq> []) (snd (last bs)))"
proof (induction bs rule: rev_induct)
  case Nil
  then show ?case by simp
next
  case (snoc b bs)
  have wb: "well_formed_block b" using snoc.prems(2) by simp
  show ?case
  proof (cases "bs = []")
    case True
    then show ?thesis
      by (simp add: scan_block [OF wb] flush_def)
  next
    case False
    have w: "\<forall>b\<in>set bs. well_formed_block b" using snoc.prems(2) by simp
    have d: "distinct (map (\<lambda>b. strip (fst b)) bs)" using snoc.prems(3) by simp
    have ih: "scan_lines ([], None, []) (concat (map block_lines bs))
        = (map scene_of (butlast bs), Some (strip (fst (last bs))),
           filter (\<lambda>l. strip l \<noteq> []) (snd (last bs)))"
      by (rule snoc.IH [OF False w d])
    have bl: "bs = butlast bs @ [last bs]" using False by simp
    have "distinct (map (\<lambda>b. strip (fst b)) (butlast bs @ [last bs]))"
      using d bl by simp
    then have fresh: "strip (fst (last bs)) \<notin> fst ` set (map scene_of (butlast bs))"
      by (auto simp: scene_of_def image_iff)
    have "last bs \<in> set bs" using False by simp
    then have "is_marker (fst (last bs))"
      using w by (simp add: well_formed_block_def)
    then have ne: "strip (fst (last bs)) \<noteq> []" by (rule marker_nonblank)
    have "flush (map scene_of (butlast bs)) (Some (strip (fst (last bs))))
            (filter (\<lambda>l. strip l \<noteq> []) (snd (last bs)))
          = map scene_of (butlast bs) @ [scene_of (last bs)]"
      using ne by (simp add: flush_def dict_set_fresh [OF fresh] scene_of_def)
    also have "\<dots> = map scene_of (butlast bs @ [last bs])" by simp
    also have "\<dots> = map scene_of bs" using bl by simp
    finally have fl: "flush (map scene_of (butlast bs)) (Some (strip (fst (last bs))))
            (filter (\<lambda>l. strip l \<noteq> []) (snd (last bs))) = map scene_of bs" .
    show ?thesis
      by (simp add: scan_lines_append ih scan_block [OF wb] fl)
  qed
qed

lemma scan_lines_preamble:
  assumes "\<forall>l\<in>set pre. \<not> is_marker l"
  shows "scan_lines ([], None, []) pre = ([], None, [])"
  by (simp add: scan_lines_body [OF assms])

section \<open>Theorems\<close>

text \<open>
  C2. For every raw text, validation passes exactly when the word count of the text
  (the length of \<open>story.split()\<close>) is at most 500 and the text contains the literal
  substring \<open>[Scene\<close>. In particular a text of exactly 500 words that contains
  \<open>[Scene\<close> passes, a text of 501 words fails whatever it contains, and a text
  without \<open>[Scene\<close> fails.
\<close>

theorem validate_content_iff:
  "(validate_content story \<longleftrightarrow>
      length (split_ws story) \<le> 500 \<and> (\<exists>a b. story = a @ ''[Scene'' @ b))
   \<and> (length (split_ws story) = 500 \<and> (\<exists>a b. story = a @ ''[Scene'' @ b)
        \<longrightarrow> validate_content story)
   \<and> (length (split_ws story) = 501 \<longrightarrow> \<not> validate_content story)
   \<and> ((\<nexists>a b. story = a @ ''[Scene'' @ b) \<longrightarrow> \<not> validate_content story)"
  by (auto simp: validate_content_def contains_append)

theorem validate_content_iff_witness:
  "validate_content (concat (replicate 499 ''a '') @ ''[Scene'')
   \<and> \<not> validate_content (concat (replicate 500 ''a '') @ ''[Scene'')
   \<and> \<not> validate_content ''Title: T''"
proof -
  have l1: "length (split_ws (concat (replicate 499 ''a '') @ ''[Scene'')) = 500"
    by (simp only: length_split_ws_spaced split_ws_marker)
  have l2: "length (split_ws (concat (replicate 500 ''a '') @ ''[Scene'')) = 501"
    by (simp only: length_split_ws_spaced split_ws_marker)
  have m: "\<exists>a b. concat (replicate 499 ''a '') @ ''[Scene'' = a @ ''[Scene'' @ b"
    by (rule exI [of _ "concat (replicate 499 ''a '')"], rule exI [of _ "[]"]) simp
  have n: "\<nexists>a b. ''Title: T'' = a @ ''[Scene'' @ b"
    unfolding contains_append [symmetric] by simp
  show ?thesis
    using validate_content_iff [of "concat (replicate 499 ''a '') @ ''[Scene''"]
      validate_content_iff [of "concat (replicate 500 ''a '') @ ''[Scene''"]
      validate_content_iff [of "''Title: T''"] l1 l2 m n
    by blast
qed

text \<open>
  C1. For every moral value and list of character names: if each of the three calls of
  the text collaborator raises an exception (one that derives from \<open>Exception\<close>) or
  returns a text that fails validation, then \<open>generate_story\<close>, with the default
  \<open>max_attempts\<close>, makes exactly 3 calls and raises
  \<open>Exception("Failed to generate a valid story")\<close>.
\<close>

theorem generate_story_exhausted:
  assumes "\<forall>i<3. discarded (model (calls + i)
                     (create_story_prompt moral_value character_names) temperature)"
  shows "generate_story model temperature moral_value character_names
           default_max_attempts calls
         = (Inl (Exception ''Failed to generate a valid story''), calls + 3)"
  using assms
    attempts_skip [where k = 3 and left = 0 and model = model and calls = calls
      and mv = moral_value and names = character_names and t = temperature]
  by (simp add: generate_story_def default_max_attempts_def)

theorem generate_story_exhausted_witness:
  "discarded (failing_model 0 (create_story_prompt ''honesty'' [''Ann'', ''Bo'']) ())
   \<and> discarded (failing_model 1 (create_story_prompt ''honesty'' [''Ann'', ''Bo'']) ())
   \<and> discarded (failing_model 2 (create_story_prompt ''honesty'' [''Ann'', ''Bo'']) ())
   \<and> generate_story failing_model () ''honesty'' [''Ann'', ''Bo''] default_max_attempts 0
       = (Inl (Exception ''Failed to generate a valid story''), 3)"
proof -
  have h: "\<forall>i<3. discarded (failing_model (0 + i)
             (create_story_prompt ''honesty'' [''Ann'', ''Bo'']) ())"
    by (simp add: discarded_def failing_model_def validate_content_def)
  have d: "discarded (failing_model n (create_story_prompt ''honesty'' [''Ann'', ''Bo'']) ())"
    for n
    by (simp add: discarded_def failing_model_def validate_content_def)
  show ?thesis
    using h d generate_story_exhausted [where model = failing_model and calls = 0
        and moral_value = "''honesty''" and character_names = "[''Ann'', ''Bo'']"
        and temperature = "()"]
    by simp
qed

text \<open>
  C5. If the attempts before attempt \<open>k + 1\<close> are discarded and attempt \<open>k + 1\<close>, within
  the bound, returns a text that passes validation, then \<open>generate_story\<close> returns the
  parse of that text and has made exactly \<open>k + 1\<close> calls of the collaborator: no later
  attempt is made. With \<open>k = 1\<close>: when attempt 2 succeeds there is no third attempt.
\<close>

theorem generate_story_first_valid_wins:
  assumes "k < nat max_attempts"
    and "\<forall>i<k. discarded (model (calls + i)
                  (create_story_prompt moral_value character_names) temperature)"
    and "model (calls + k) (create_story_prompt moral_value character_names) temperature
         = Inr story"
    and "validate_content story"
  shows "\<exists>result. parse_story story = Inr result \<and>
           generate_story model temperature moral_value character_names max_attempts calls
           = (Inr result, calls + k + 1)"
proof -
  obtain result where r: "parse_story story = Inr result"
    using parse_story_returns by blast
  define left where "left = nat max_attempts - Suc k"
  have l: "nat max_attempts = k + Suc left"
    using assms(1) by (simp add: left_def)
  have "generate_story model temperature moral_value character_names max_attempts calls
        = attempts model temperature moral_value character_names (k + Suc left) calls"
    by (simp only: generate_story_def l)
  also have "\<dots> = attempts model temperature moral_value character_names (Suc left) (calls + k)"
    by (rule attempts_skip [where k = k and left = "Suc left" and model = model
          and calls = calls and mv = moral_value and names = character_names
          and t = temperature, OF assms(2)])
  also have "\<dots> = (Inr result, Suc (calls + k))"
    by (rule attempts_valid [where model = model and calls = "calls + k"
          and mv = moral_value and names = character_names and t = temperature
          and story = story, OF assms(3) assms(4) r])
  finally have "generate_story model temperature moral_value character_names max_attempts calls
        = (Inr result, calls + k + 1)"
    by simp
  with r show ?thesis by blast
qed

theorem generate_story_first_valid_wins_witness:
  "(1::nat) < nat default_max_attempts
   \<and> discarded (second_try_model 0 (create_story_prompt ''honesty'' [''Ann'']) ())
   \<and> second_try_model (0 + 1) (create_story_prompt ''honesty'' [''Ann'']) ()
       = Inr ''Title: T\<newline>[Scene 1]\<newline>Hi''
   \<and> validate_content ''Title: T\<newline>[Scene 1]\<newline>Hi''
   \<and> (\<exists>result. parse_story ''Title: T\<newline>[Scene 1]\<newline>Hi'' = Inr result \<and>
         generate_story second_try_model () ''honesty'' [''Ann''] default_max_attempts 0
         = (Inr result, 2))"
proof -
  have a: "(1::nat) < nat default_max_attempts"
    by (simp add: default_max_attempts_def)
  have b: "\<forall>i<1. discarded (second_try_model (0 + i)
             (create_story_prompt ''honesty'' [''Ann'']) ())"
    by (simp add: discarded_def second_try_model_def)
  have c: "second_try_model (0 + 1) (create_story_prompt ''honesty'' [''Ann'']) ()
           = Inr ''Title: T\<newline>[Scene 1]\<newline>Hi''"
    by (simp add: second_try_model_def)
  have d: "validate_content ''Title: T\<newline>[Scene 1]\<newline>Hi''"
    by (simp add: validate_content_def split_ws_def isspace_def)
  show ?thesis
    using a b c d generate_story_first_valid_wins [where k = 1 and model = second_try_model
        and calls = 0 and max_attempts = default_max_attempts and temperature = "()"
        and moral_value = "''honesty''" and character_names = "[''Ann'']"
        and story = "''Title: T\<newline>[Scene 1]\<newline>Hi''"]
    by (simp only: add_0 one_add_one)
qed

text \<open>
  C9. For the involved characters A and B, with the descriptions "a dog" and "a cat",
  and the scene description "park", the prompt is "A: a dog", "B: a cat" and
  "Scene: park." on three lines. In general, when every involved character has a
  description, the prompt is one line "name: description" for each involved character,
  in the order given, and then "Scene: " with the scene description and a full stop.
\<close>

theorem scene_prompt_assembly:
  "(\<exists>d. scene_input_data ''park'' (map_of [(''A'', ''a dog''), (''B'', ''a cat'')])
          [''A'', ''B''] output_dir scene_name = Inr d
        \<and> prompt d = ''A: a dog\<newline>B: a cat\<newline>Scene: park.'')
   \<and> ((\<forall>n\<in>set characters_involved. character_descriptions n \<noteq> None) \<longrightarrow>
        (\<exists>d. scene_input_data scene_description character_descriptions characters_involved
                output_dir scene_name = Inr d
              \<and> prompt d =
                  concat (map (\<lambda>n. n @ '': '' @ the (character_descriptions n) @ ''\<newline>'')
                            characters_involved)
                  @ ''Scene: '' @ scene_description @ ''.''))"
proof (intro conjI impI)
  show "\<exists>d. scene_input_data ''park'' (map_of [(''A'', ''a dog''), (''B'', ''a cat'')])
          [''A'', ''B''] output_dir scene_name = Inr d
        \<and> prompt d = ''A: a dog\<newline>B: a cat\<newline>Scene: park.''"
    by (simp add: scene_input_data_def)
next
  assume "\<forall>n\<in>set characters_involved. character_descriptions n \<noteq> None"
  then have "find (\<lambda>n. character_descriptions n = None) characters_involved = None"
    by (simp add: find_None_all)
  then show "\<exists>d. scene_input_data scene_description character_descriptions
                 characters_involved output_dir scene_name = Inr d
              \<and> prompt d =
                  concat (map (\<lambda>n. n @ '': '' @ the (character_descriptions n) @ ''\<newline>'')
                            characters_involved)
                  @ ''Scene: '' @ scene_description @ ''.''"
    by (simp add: scene_input_data_def character_lines_find)
qed

theorem scene_prompt_assembly_witness:
  "map_of [(''A'', ''a dog''), (''B'', ''a cat'')] ''A'' \<noteq> None
   \<and> map_of [(''A'', ''a dog''), (''B'', ''a cat'')] ''B'' \<noteq> None
   \<and> (\<exists>d. scene_input_data ''park'' (map_of [(''A'', ''a dog''), (''B'', ''a cat'')])
              [''B'', ''A'', ''B''] ''generated_scene_images'' ''scene1'' = Inr d
            \<and> prompt d = ''B: a cat\<newline>A: a dog\<newline>B: a cat\<newline>Scene: park.'')"
proof -
  have h: "\<forall>n\<in>set [''B'', ''A'', ''B''].
             map_of [(''A'', ''a dog''), (''B'', ''a cat'')] n \<noteq> None"
    by simp
  show ?thesis
    using h scene_prompt_assembly [where characters_involved = "[''B'', ''A'', ''B'']"
        and character_descriptions = "map_of [(''A'', ''a dog''), (''B'', ''a cat'')]"
        and scene_description = "''park''" and output_dir = "''generated_scene_images''"
        and scene_name = "''scene1''"]
    by simp
qed

text \<open>
  C10. Two calls of \<open>generate_scene_image\<close> that differ only in \<open>output_dir\<close> and
  \<open>scene_name\<close> build the same \<open>input_data\<close> (prompt and parameters, the seed being
  2414) and, against the same collaborator in the same state, return the same result.
\<close>

theorem output_dir_and_scene_name_unused:
  "scene_input_data scene_description character_descriptions characters_involved
       output_dir scene_name
     = scene_input_data scene_description character_descriptions characters_involved
         output_dir' scene_name'
   \<and> generate_scene_image monster_client scene_description character_descriptions
         characters_involved output_dir scene_name calls
     = generate_scene_image monster_client scene_description character_descriptions
         characters_involved output_dir' scene_name' calls
   \<and> (\<forall>d. scene_input_data scene_description character_descriptions characters_involved
               output_dir scene_name = Inr d \<longrightarrow> seed d = 2414)"
  by (auto simp: scene_input_data_def generate_scene_image_def split: sum.splits)

theorem output_dir_and_scene_name_unused_witness:
  "scene_input_data ''park'' (map_of [(''A'', ''a dog'')]) [''A''] ''dir1'' ''scene1''
     = scene_input_data ''park'' (map_of [(''A'', ''a dog'')]) [''A''] ''dir2'' ''scene2''
   \<and> generate_scene_image single_url_client ''park'' (map_of [(''A'', ''a dog'')]) [''A'']
         ''dir1'' ''scene1'' 0
     = generate_scene_image single_url_client ''park'' (map_of [(''A'', ''a dog'')]) [''A'']
         ''dir2'' ''scene2'' 0
   \<and> generate_scene_image single_url_client ''park'' (map_of [(''A'', ''a dog'')]) [''A'']
         ''dir1'' ''scene1'' 0 = (Inr ''http://image/1'', 1)
   \<and> (\<exists>d. scene_input_data ''park'' (map_of [(''A'', ''a dog'')]) [''A''] ''dir1'' ''scene1''
              = Inr d \<and> seed d = 2414)"
proof -
  have e: "\<exists>d. scene_input_data ''park'' (map_of [(''A'', ''a dog'')]) [''A''] ''dir1'' ''scene1''
              = Inr d"
    by (simp add: scene_input_data_def)
  have r: "generate_scene_image single_url_client ''park'' (map_of [(''A'', ''a dog'')]) [''A'']
         ''dir1'' ''scene1'' 0 = (Inr ''http://image/1'', 1)"
    by (simp add: generate_scene_image_def scene_input_data_def single_url_client_def)
  show ?thesis
    using e r output_dir_and_scene_name_unused [where scene_description = "''park''"
        and character_descriptions = "map_of [(''A'', ''a dog'')]"
        and characters_involved = "[''A'']" and output_dir = "''dir1''"
        and scene_name = "''scene1''" and output_dir' = "''dir2''"
        and scene_name' = "''scene2''" and monster_client = single_url_client
        and calls = 0]
    by metis
qed

text \<open>
  C7, as the code has it. The claim that a character without description gives a
  checked error \<open>MissingCharacterDescription\<close> fails: the code raises the KeyError of
  the dictionary lookup, here for the character B.
\<close>

theorem missing_description_counterexample:
  "generate_scene_image single_url_client ''park'' (map_of [(''A'', ''a dog'')])
       [''A'', ''B''] ''generated_scene_images'' ''scene1'' 0
   = (Inl (KeyError ''B''), 0)"
  by (simp add: generate_scene_image_def scene_input_data_def)

text \<open>
  C7, amended. When some involved character has no entry in the descriptions,
  \<open>generate_scene_image\<close> raises the KeyError of the first such character in the order
  given, and the image collaborator is not called.
\<close>

theorem missing_description_raises_KeyError:
  assumes "\<exists>n\<in>set characters_involved. character_descriptions n = None"
  shows "\<exists>n\<in>set characters_involved.
           character_descriptions n = None
         \<and> (\<forall>m\<in>set (takeWhile (\<lambda>m. m \<noteq> n) characters_involved).
               character_descriptions m \<noteq> None)
         \<and> generate_scene_image monster_client scene_description character_descriptions
               characters_involved output_dir scene_name calls
             = (Inl (KeyError n), calls)"
proof -
  obtain n where f: "find (\<lambda>n. character_descriptions n = None) characters_involved = Some n"
    using assms find_None_all [of "\<lambda>n. character_descriptions n = None" characters_involved]
    by (cases "find (\<lambda>n. character_descriptions n = None) characters_involved") auto
  have "generate_scene_image monster_client scene_description character_descriptions
          characters_involved output_dir scene_name calls = (Inl (KeyError n), calls)"
    using f by (simp add: generate_scene_image_def scene_input_data_def character_lines_find)
  with find_Some_first [OF f] show ?thesis by blast
qed

theorem missing_description_raises_KeyError_witness:
  "(\<exists>n\<in>set [''A'', ''B'']. map_of [(''A'', ''a dog'')] n = None)
   \<and> generate_scene_image single_url_client ''park'' (map_of [(''A'', ''a dog'')])
         [''A'', ''B''] ''generated_scene_images'' ''scene1'' 0
       = (Inl (KeyError ''B''), 0)"
proof -
  have h: "\<exists>n\<in>set [''A'', ''B'']. map_of [(''A'', ''a dog'')] n = None"
    by simp
  show ?thesis
    using h missing_description_raises_KeyError [where characters_involved = "[''A'', ''B'']"
        and character_descriptions = "map_of [(''A'', ''a dog'')]"
        and monster_client = single_url_client and scene_description = "''park''"
        and output_dir = "''generated_scene_images''" and scene_name = "''scene1''"
        and calls = 0]
    by auto
qed

text \<open>
  C3. Parsing the text with the lines "Title: T", "[Scene 1]", "Hello", "world",
  "[Scene 2]", "Bye" gives the title "T" and the scenes "[Scene 1]" with the body
  "Hello", line feed, "world", and "[Scene 2]" with the body "Bye". In general, for a
  text whose lines after the first are lines without marker followed by blocks with
  distinct trimmed marker lines, the scenes are the blocks in order, each keyed by
  its trimmed marker line with the non-blank lines of its body joined and trimmed;
  a last block without non-blank body line is left out.
\<close>

theorem parse_story_scenes_of_blocks:
  "parse_story ''Title: T\<newline>[Scene 1]\<newline>Hello\<newline>world\<newline>[Scene 2]\<newline>Bye''
     = Inr \<lparr>title = ''T'',
            scenes = [(''[Scene 1]'', ''Hello\<newline>world''), (''[Scene 2]'', ''Bye'')],
            full_text = ''Title: T\<newline>[Scene 1]\<newline>Hello\<newline>world\<newline>[Scene 2]\<newline>Bye''\<rparr>
   \<and> (parse_story raw = Inr res
        \<and> split_sep CHR ''\<newline>'' raw = first # pre @ concat (map block_lines bs)
        \<and> (\<forall>l\<in>set pre. \<not> is_marker l)
        \<and> (\<forall>b\<in>set bs. well_formed_block b)
        \<and> distinct (map (\<lambda>b. strip (fst b)) bs)
      \<longrightarrow> scenes res =
            map scene_of (if bs \<noteq> [] \<and> (\<forall>l\<in>set (snd (last bs)). strip l = [])
                          then butlast bs else bs))"
proof (intro conjI impI)
  show "parse_story ''Title: T\<newline>[Scene 1]\<newline>Hello\<newline>world\<newline>[Scene 2]\<newline>Bye''
     = Inr \<lparr>title = ''T'',
            scenes = [(''[Scene 1]'', ''Hello\<newline>world''), (''[Scene 2]'', ''Bye'')],
            full_text = ''Title: T\<newline>[Scene 1]\<newline>Hello\<newline>world\<newline>[Scene 2]\<newline>Bye''\<rparr>"
    by (simp add: parse_story_def scan_lines_def scan_line.simps strip_def isspace_def
        replace_def)
next
  assume a: "parse_story raw = Inr res
        \<and> split_sep CHR ''\<newline>'' raw = first # pre @ concat (map block_lines bs)
        \<and> (\<forall>l\<in>set pre. \<not> is_marker l)
        \<and> (\<forall>b\<in>set bs. well_formed_block b)
        \<and> distinct (map (\<lambda>b. strip (fst b)) bs)"
  then have p: "parse_story raw = Inr res"
    and sp: "split_sep CHR ''\<newline>'' raw = first # pre @ concat (map block_lines bs)"
    and np: "\<forall>l\<in>set pre. \<not> is_marker l"
    and w: "\<forall>b\<in>set bs. well_formed_block b"
    and d: "distinct (map (\<lambda>b. strip (fst b)) bs)"
    by blast+
  show "scenes res =
            map scene_of (if bs \<noteq> [] \<and> (\<forall>l\<in>set (snd (last bs)). strip l = [])
                          then butlast bs else bs)"
  proof (cases "bs = []")
    case True
    have "scan_lines ([], None, []) (pre @ concat (map block_lines bs)) = ([], None, [])"
      using True by (simp add: scan_lines_preamble [OF np])
    then show ?thesis
      using parse_story_scenes [OF sp p] True by simp
  next
    case False
    let ?body = "filter (\<lambda>l. strip l \<noteq> []) (snd (last bs))"
    have s: "scan_lines ([], None, []) (pre @ concat (map block_lines bs))
             = (map scene_of (butlast bs), Some (strip (fst (last bs))), ?body)"
      by (simp add: scan_lines_append scan_lines_preamble [OF np] scan_blocks [OF False w d])
    have sc: "scenes res = (if ?body \<noteq> []
                then flush (map scene_of (butlast bs)) (Some (strip (fst (last bs)))) ?body
                else map scene_of (butlast bs))"
      by (rule parse_story_scenes [OF sp p s])
    have bl: "bs = butlast bs @ [last bs]" using False by simp
    have "distinct (map (\<lambda>b. strip (fst b)) (butlast bs @ [last bs]))"
      using d bl by simp
    then have fresh: "strip (fst (last bs)) \<notin> fst ` set (map scene_of (butlast bs))"
      by (auto simp: scene_of_def image_iff)
    have "last bs \<in> set bs" using False by simp
    then have "is_marker (fst (last bs))"
      using w by (simp add: well_formed_block_def)
    then have ne: "strip (fst (last bs)) \<noteq> []" by (rule marker_nonblank)
    have "flush (map scene_of (butlast bs)) (Some (strip (fst (last bs)))) ?body
          = map scene_of (butlast bs) @ [scene_of (last bs)]"
      using ne by (simp add: flush_def dict_set_fresh [OF fresh] scene_of_def)
    also have "\<dots> = map scene_of (butlast bs @ [last bs])" by simp
    also have "\<dots> = map scene_of bs" using bl by simp
    finally have fl: "flush (map scene_of (butlast bs)) (Some (strip (fst (last bs)))) ?body
                      = map scene_of bs" .
    have e: "?body = [] \<longleftrightarrow> (\<forall>l\<in>set (snd (last bs)). strip l = [])"
      by (auto simp: filter_empty_conv)
    show ?thesis
      using sc fl e False by auto
  qed
qed

theorem parse_story_scenes_of_blocks_witness:
  "\<exists>res. parse_story ''Title: T\<newline>intro\<newline> [Scene 1] \<newline>\<newline>  Hello \<newline>world\<newline>[Scene 2]\<newline>\<newline>'' = Inr res
      \<and> scenes res = [(''[Scene 1]'', ''Hello \<newline>world'')]"
proof -
  let ?raw = "''Title: T\<newline>intro\<newline> [Scene 1] \<newline>\<newline>  Hello \<newline>world\<newline>[Scene 2]\<newline>\<newline>''"
  let ?bs = "[('' [Scene 1] '', ['''', ''  Hello '', ''world'']), (''[Scene 2]'', ['''', ''''])]"
  obtain res where p: "parse_story ?raw = Inr res"
    using parse_story_returns by blast
  have sp: "split_sep CHR ''\<newline>'' ?raw = ''Title: T'' # [''intro''] @ concat (map block_lines ?bs)"
    by (simp add: block_lines_def)
  have np: "\<forall>l\<in>set [''intro'']. \<not> is_marker l"
    by (simp add: is_marker_def strip_def isspace_def)
  have w: "\<forall>b\<in>set ?bs. well_formed_block b"
    by (simp add: well_formed_block_def is_marker_def strip_def isspace_def)
  have d: "distinct (map (\<lambda>b. strip (fst b)) ?bs)"
    by (simp add: strip_def isspace_def)
  have "scenes res = map scene_of (if ?bs \<noteq> [] \<and> (\<forall>l\<in>set (snd (last ?bs)). strip l = [])
                          then butlast ?bs else ?bs)"
    using parse_story_scenes_of_blocks [where raw = ?raw and res = res
        and first = "''Title: T''" and pre = "[''intro'']" and bs = ?bs] p sp np w d
    by blast
  then have "scenes res = [(''[Scene 1]'', ''Hello \<newline>world'')]"
    by (simp add: scene_of_def strip_def isspace_def)
  with p show ?thesis by blast
qed

text \<open>
  C4, as the code has it. The claim that a trailing marker without body is never a key
  of the scenes fails when an earlier marker line has the same trimmed text: the
  earlier scene was recorded under that key.
\<close>

theorem trailing_marker_counterexample:
  "split_sep CHR ''\<newline>'' ''Title: T\<newline>[Scene 1]\<newline>Hello\<newline>[Scene 1]''
     = [''Title: T'', ''[Scene 1]'', ''Hello'', ''[Scene 1]'']
   \<and> parse_story ''Title: T\<newline>[Scene 1]\<newline>Hello\<newline>[Scene 1]''
       = Inr \<lparr>title = ''T'', scenes = [(''[Scene 1]'', ''Hello'')],
              full_text = ''Title: T\<newline>[Scene 1]\<newline>Hello\<newline>[Scene 1]''\<rparr>"
  by (simp add: parse_story_def scan_lines_def scan_line.simps strip_def isspace_def
      replace_def)

text \<open>
  C4, amended. For a text that ends with a marker line followed by blank lines only,
  the trimmed trailing marker is a key of the scenes exactly when an earlier marker
  line, after the first line, has the same trimmed text; when the trailing marker is
  the first line, there are no scenes.
\<close>

theorem trailing_marker_key_iff:
  assumes "parse_story raw = Inr res"
    and "is_marker m"
    and "\<forall>l\<in>set post. strip l = []"
  shows "(split_sep CHR ''\<newline>'' raw = first # pre @ m # post \<longrightarrow>
            (strip m \<in> fst ` set (scenes res)
             \<longleftrightarrow> (\<exists>l\<in>set pre. is_marker l \<and> strip l = strip m)))
       \<and> (split_sep CHR ''\<newline>'' raw = m # post \<longrightarrow> scenes res = [])"
proof (intro conjI impI)
  assume sp: "split_sep CHR ''\<newline>'' raw = first # pre @ m # post"
  obtain sc cur ct where s1: "scan_lines ([], None, []) pre = (sc, cur, ct)"
    by (cases "scan_lines ([], None, []) pre") auto
  have k: "fst ` set sc \<union> {k. cur = Some k \<and> k \<noteq> []} = strip ` {l \<in> set pre. is_marker l}"
    using scan_lines_keys [OF s1] by simp
  have "scan_lines ([], None, []) (pre @ m # post)
        = scan_lines (scan_line (sc, cur, ct) m) post"
    by (simp add: scan_lines_append s1 scan_lines_Cons)
  also have "\<dots> = (flush sc cur ct, Some (strip m), [])"
    by (simp add: scan_line_marker [OF assms(2)] scan_lines_blank [OF assms(3)])
  finally have "scenes res = flush sc cur ct"
    using parse_story_scenes [OF sp assms(1)] by simp
  then have "fst ` set (scenes res) = strip ` {l \<in> set pre. is_marker l}"
    using k by (simp add: flush_keys)
  moreover have "strip m \<in> strip ` {l \<in> set pre. is_marker l}
                 \<longleftrightarrow> (\<exists>l\<in>set pre. is_marker l \<and> strip l = strip m)"
    by (auto simp: image_iff)
  ultimately show "strip m \<in> fst ` set (scenes res)
             \<longleftrightarrow> (\<exists>l\<in>set pre. is_marker l \<and> strip l = strip m)"
    by simp
next
  assume sp: "split_sep CHR ''\<newline>'' raw = m # post"
  have "scan_lines ([], None, []) post = ([], None, [])"
    by (rule scan_lines_blank [OF assms(3)])
  then show "scenes res = []"
    using parse_story_scenes [OF sp assms(1)] by simp
qed

theorem trailing_marker_key_iff_witness:
  "\<exists>res. parse_story ''Title: T\<newline>[Scene 1]\<newline>Hello\<newline>[Scene 2]\<newline>'' = Inr res
      \<and> ''[Scene 2]'' \<notin> fst ` set (scenes res)"
proof -
  let ?raw = "''Title: T\<newline>[Scene 1]\<newline>Hello\<newline>[Scene 2]\<newline>''"
  obtain res where p: "parse_story ?raw = Inr res"
    using parse_story_returns by blast
  have m: "is_marker ''[Scene 2]''"
    by (simp add: is_marker_def strip_def isspace_def)
  have b: "\<forall>l\<in>set ['''']. strip l = []"
    by (simp add: strip_def)
  have sp: "split_sep CHR ''\<newline>'' ?raw
            = ''Title: T'' # [''[Scene 1]'', ''Hello''] @ ''[Scene 2]'' # ['''']"
    by simp
  have s: "strip ''[Scene 2]'' = ''[Scene 2]''" "strip ''[Scene 1]'' = ''[Scene 1]''"
    by (simp_all add: strip_def isspace_def)
  have "strip ''[Scene 2]'' \<in> fst ` set (scenes res)
        \<longleftrightarrow> (\<exists>l\<in>set [''[Scene 1]'', ''Hello'']. is_marker l \<and> strip l = strip ''[Scene 2]'')"
    using trailing_marker_key_iff [OF p m b, where first = "''Title: T''"
        and pre = "[''[Scene 1]'', ''Hello'']"] sp
    by blast
  then have "''[Scene 2]'' \<notin> fst ` set (scenes res)"
    by (simp add: s is_marker_def strip_def isspace_def)
  with p show ?thesis by blast
qed

text \<open>
  C6, as the code has it. The claim that a validated text has a non-empty scenes
  mapping fails: a text whose only marker line has no body passes validation and has
  no scenes.
\<close>

theorem scenes_nonempty_counterexample:
  "validate_content ''Title: T\<newline>[Scene 1]''
   \<and> parse_story ''Title: T\<newline>[Scene 1]''
       = Inr \<lparr>title = ''T'', scenes = [], full_text = ''Title: T\<newline>[Scene 1]''\<rparr>"
  by (simp add: validate_content_def split_ws_def parse_story_def scan_lines_def
      scan_line.simps strip_def isspace_def replace_def)

text \<open>
  C6, amended. For a text that passes validation, the scenes mapping is non-empty
  exactly when some line after the first is a marker line and some later line is
  not blank.
\<close>

theorem scenes_nonempty_iff:
  assumes "validate_content raw"
    and "split_sep CHR ''\<newline>'' raw = first # rest"
    and "parse_story raw = Inr res"
  shows "scenes res \<noteq> [] \<longleftrightarrow>
         (\<exists>a m b. rest = a @ m # b \<and> is_marker m \<and> (\<exists>l\<in>set b. strip l \<noteq> []))"
proof -
  obtain sc cur ct where s: "scan_lines ([], None, []) rest = (sc, cur, ct)"
    by (cases "scan_lines ([], None, []) rest") auto
  have "scenes res = (if ct \<noteq> [] then flush sc cur ct else sc)"
    using assms(2,3) s by (rule parse_story_scenes)
  then have "scenes res \<noteq> [] \<longleftrightarrow> (sc \<noteq> [] \<or> (truthy cur \<and> ct \<noteq> []))"
    by (cases cur) (auto simp: flush_def dict_set_nonempty)
  with scan_lines_closed [OF s] show ?thesis by simp
qed

theorem scenes_nonempty_iff_witness:
  "validate_content ''Title: T\<newline>[Scene 1]\<newline>Hi''
   \<and> (\<exists>res. parse_story ''Title: T\<newline>[Scene 1]\<newline>Hi'' = Inr res \<and> scenes res \<noteq> [])"
proof -
  let ?raw = "''Title: T\<newline>[Scene 1]\<newline>Hi''"
  obtain res where p: "parse_story ?raw = Inr res"
    using parse_story_returns by blast
  have v: "validate_content ?raw"
    by (simp add: validate_content_def split_ws_def isspace_def)
  have sp: "split_sep CHR ''\<newline>'' ?raw = ''Title: T'' # [''[Scene 1]'', ''Hi'']"
    by simp
  have m: "is_marker ''[Scene 1]''"
    by (simp add: is_marker_def strip_def isspace_def)
  have h: "strip ''Hi'' \<noteq> []"
    by (simp add: strip_def isspace_def)
  have "[''[Scene 1]'', ''Hi''] = [] @ ''[Scene 1]'' # [''Hi'']"
    by simp
  with m h have "\<exists>a m b. [''[Scene 1]'', ''Hi''] = a @ m # b \<and> is_marker m
                   \<and> (\<exists>l\<in>set b. strip l \<noteq> [])"
    by (metis list.set_intros(1))
  then have "scenes res \<noteq> []"
    using scenes_nonempty_iff [OF v sp p] by blast
  with v p show ?thesis by blast
qed

text \<open>
  C8, as the code has it. The claim that a later occurrence of \<open>Title:\<close> in the first
  line is kept in the title fails: \<open>replace\<close> removes every occurrence.
\<close>

theorem title_counterexample:
  "parse_story ''Title: The Title: Returns\<newline>[Scene 1]\<newline>Hi''
     = Inr \<lparr>title = ''The  Returns'', scenes = [(''[Scene 1]'', ''Hi'')],
            full_text = ''Title: The Title: Returns\<newline>[Scene 1]\<newline>Hi''\<rparr>
   \<and> title_spec ''Title: The Title: Returns'' = ''The Title: Returns''"
  by (simp add: parse_story_def scan_lines_def scan_line.simps strip_def isspace_def
      replace_def title_spec_def)

text \<open>
  C8, amended. For a text whose first line has \<open>Title:\<close> as its prefix and nowhere
  else, or has no \<open>Title:\<close> at all, the title is the first line with the prefix
  stripped and the surrounding whitespace trimmed.
\<close>

theorem title_single_prefix:
  assumes "split_sep CHR ''\<newline>'' raw = first # rest"
    and "parse_story raw = Inr res"
    and "(\<exists>t. first = ''Title:'' @ t \<and> \<not> contains t ''Title:'') \<or> \<not> contains first ''Title:''"
  shows "title res = title_spec first"
proof -
  have t: "title res = strip (replace first ''Title:'' [])"
    using assms(1,2) by (rule parse_story_title)
  from assms(3) show ?thesis
  proof
    assume "\<exists>t. first = ''Title:'' @ t \<and> \<not> contains t ''Title:''"
    then obtain t' where f: "first = ''Title:'' @ t'" and n: "\<not> contains t' ''Title:''"
      by blast
    have "replace (''Title:'' @ t') ''Title:'' [] = [] @ t'"
      by (rule replace_prefix_once) (use n in simp_all)
    moreover have "title_spec (''Title:'' @ t') = strip t'"
      by (simp add: title_spec_def)
    ultimately show ?thesis using t f by simp
  next
    assume n: "\<not> contains first ''Title:''"
    then have "\<not> startswith first ''Title:''"
      by (cases first) auto
    then have "title_spec first = strip first"
      by (simp add: title_spec_def)
    then show ?thesis using t n by (simp add: replace_absent)
  qed
qed

theorem title_single_prefix_witness:
  "\<exists>res. parse_story ''Title: The Lost Kite\<newline>[Scene 1]\<newline>Hi'' = Inr res
      \<and> title res = ''The Lost Kite''"
proof -
  let ?raw = "''Title: The Lost Kite\<newline>[Scene 1]\<newline>Hi''"
  obtain res where p: "parse_story ?raw = Inr res"
    using parse_story_returns by blast
  have sp: "split_sep CHR ''\<newline>'' ?raw = ''Title: The Lost Kite'' # [''[Scene 1]'', ''Hi'']"
    by simp
  have "''Title: The Lost Kite'' = ''Title:'' @ '' The Lost Kite''
        \<and> \<not> contains '' The Lost Kite'' ''Title:''"
    by simp
  then have c: "(\<exists>t. ''Title: The Lost Kite'' = ''Title:'' @ t \<and> \<not> contains t ''Title:'')
                \<or> \<not> contains ''Title: The Lost Kite'' ''Title:''"
    by blast
  have "title res = title_spec ''Title: The Lost Kite''"
    by (rule title_single_prefix [OF sp p c])
  then have "title res = ''The Lost Kite''"
    by (simp add: title_spec_def strip_def isspace_def)
  with p show ?thesis by blast
qed

end
